theory Spec2Isabelle
  imports Main
begin

section \<open>Python strings\<close>

text \<open>
  A Python \<open>str\<close> is modelled as a \<open>string\<close>, one \<open>char\<close> per code point; the
  tables of \<open>isspace\<close> and \<open>lower\<close> are those of the code points below 256.
\<close>

definition nl :: char where
  "nl = CHR 0x0A"

definition isspace :: "char \<Rightarrow> bool" where
  "isspace c = (of_char c \<in> {9, 10, 11, 12, 13, 28, 29, 30, 31, 32, 133, 160 :: nat})"

text \<open>\<open>s.strip()\<close>: whitespace removed at both ends.\<close>

definition strip :: "string \<Rightarrow> string" where
  "strip s = rev (dropWhile isspace (rev (dropWhile isspace s)))"

text \<open>\<open>s.startswith(p)\<close>.\<close>

fun startswith :: "string \<Rightarrow> string \<Rightarrow> bool" where
  "startswith s [] = True"
| "startswith [] (p # ps) = False"
| "startswith (c # cs) (p # ps) = (c = p \<and> startswith cs ps)"

text \<open>\<open>sub in s\<close>.\<close>

fun contains :: "string \<Rightarrow> string \<Rightarrow> bool" where
  "contains sub [] = (sub = [])"
| "contains sub (c # cs) = (startswith (c # cs) sub \<or> contains sub cs)"

text \<open>\<open>s.replace(old, new)\<close>: the occurrences of \<open>old\<close> are found from the left and do not overlap.\<close>

function replace :: "string \<Rightarrow> string \<Rightarrow> string \<Rightarrow> string" where
  "replace [] old new = (if old = [] then new else [])"
| "replace (c # cs) old new =
     (if old = [] then new @ c # replace cs old new
      else if startswith (c # cs) old then new @ replace (drop (length old) (c # cs)) old new
      else c # replace cs old new)"
  by pat_completeness auto
termination
  by (relation "measure (\<lambda>(s, old, new). length s)") (auto simp: neq_Nil_conv)

text \<open>\<open>s.split(sep)\<close> and \<open>sep.join(lines)\<close>, for a separator of one character.\<close>

fun split :: "string \<Rightarrow> char \<Rightarrow> string list" where
  "split [] sep = [[]]"
| "split (c # cs) sep =
     (if c = sep then [] # split cs sep
      else (case split cs sep of [] \<Rightarrow> [[c]] | l # ls \<Rightarrow> (c # l) # ls))"

fun join :: "char \<Rightarrow> string list \<Rightarrow> string" where
  "join sep [] = []"
| "join sep [l] = l"
| "join sep (l # m # ls) = l @ sep # join sep (m # ls)"

definition lower_char :: "char \<Rightarrow> char" where
  "lower_char c =
     (let n = of_char c :: nat
      in if (65 \<le> n \<and> n \<le> 90) \<or> (192 \<le> n \<and> n \<le> 222 \<and> n \<noteq> 215)
         then char_of (n + 32) else c)"

definition lower :: "string \<Rightarrow> string" where
  "lower s = map lower_char s"

section \<open>Data model\<close>

record RoadmapRequest =
  skill :: string
  language :: string
  speed :: string
  custom_prompt :: string

text \<open>
  The classes of exceptions that the code tells apart, each exception under the most
  specific one: an \<open>AttributeError\<close> is an \<open>Exception\<close>, an \<open>Exception\<close> a
  \<open>BaseException\<close>. \<open>hasattr\<close> answers \<open>False\<close> on an \<open>AttributeError\<close> and lets
  every other exception through; \<open>except Exception\<close> lets through what is a
  \<open>BaseException\<close> only, such as a cancellation or an interrupt.
\<close>

datatype exception_class = AttributeError | Exception | BaseException

text \<open>
  An exception: its class, and what \<open>str(e)\<close> gives where the code formats and prints the
  exception: the message, or the exception raised instead of it.
\<close>

datatype exn = Exn (class_of: exception_class) (str: "exn + string")

fun isinstance_Exception :: "exn \<Rightarrow> bool" where
  "isinstance_Exception (Exn AttributeError m) = True"
| "isinstance_Exception (Exn Exception m) = True"
| "isinstance_Exception (Exn BaseException m) = False"

text \<open>
  What reading an attribute of the opaque model response does: the attribute is missing,
  its getter raises, or it yields a value. Reading a missing attribute raises an
  \<open>AttributeError\<close>, whose message is abridged here to the attribute's name.
\<close>

datatype 'a attr = Absent | Raises exn | Has 'a

fun hasattr :: "'a attr \<Rightarrow> exn + bool" where
  "hasattr Absent = Inr False"
| "hasattr (Raises e) = (if class_of e = AttributeError then Inr False else Inl e)"
| "hasattr (Has v) = Inr True"

fun getattr :: "string \<Rightarrow> 'a attr \<Rightarrow> exn + 'a" where
  "getattr name Absent = Inl (Exn AttributeError (Inr name))"
| "getattr name (Raises e) = Inl e"
| "getattr name (Has v) = Inr v"

record part =
  part_text :: "string option attr"

record content =
  parts :: "part list option attr"

record candidate =
  content :: "content option attr"

record ModelResponse =
  text_attr :: "string option attr"
  candidates :: "candidate list option attr"

record KrokiResponse =
  status_code :: int
  kroki_text :: string

datatype json = JStr string | JBool bool

type_synonym dict = "(string \<times> json) list"

section \<open>Prompt construction\<close>

definition prompt_rules :: string where
  "prompt_rules = join nl
     [''IMPORTANT RULES:'',
      ''1. Start with: graph TD'',
      ''2. Use simple node IDs: A, B, C, etc'',
      ''3. Put labels in square brackets: A[Label Text]'',
      ''4. Avoid special characters in labels (no colons, quotes)'',
      ''5. Connect nodes: A --> B'',
      ''6. All nodes must be connected to the graph'',
      ''7. No explanations, just the graph code'',
      '''',
      ''Example:'',
      ''graph TD'',
      ''    A[Start] --> B[Learn Basics]'',
      ''    B --> C[Practice]'',
      ''    C --> D[Build Project]'',
      '''',
      ''Generate the roadmap now:'']"

definition custom_context :: "RoadmapRequest \<Rightarrow> string" where
  "custom_context req = (if custom_prompt req \<noteq> [] then '' '' @ custom_prompt req else [])"

definition build_prompt :: "RoadmapRequest \<Rightarrow> string" where
  "build_prompt req =
     ''Create a Mermaid flowchart for learning '' @ skill req @ ''.'' @ [nl] @
     ''Pace: '' @ speed req @ ''.'' @ custom_context req @ [nl, nl] @ prompt_rules"

section \<open>Response Extractor\<close>

text \<open>
  Strategy 1, the body of the first \<open>try\<close>: the value of \<open>mermaid_code\<close> afterwards,
  or the exception that left the block.
\<close>

definition strategy1 :: "ModelResponse \<Rightarrow> exn + string option" where
  "strategy1 response =
     (case hasattr (text_attr response) of
        Inl e \<Rightarrow> Inl e
      | Inr False \<Rightarrow> Inr None
      | Inr True \<Rightarrow> getattr ''text'' (text_attr response))"

text \<open>The loop over the parts: \<open>text_parts\<close>, or the exception a part raised.\<close>

fun collect_parts :: "part list \<Rightarrow> exn + string list" where
  "collect_parts [] = Inr []"
| "collect_parts (p # ps) =
     (case hasattr (part_text p) of
        Inl e \<Rightarrow> Inl e
      | Inr False \<Rightarrow> collect_parts ps
      | Inr True \<Rightarrow>
          (case getattr ''text'' (part_text p) of
             Inl e \<Rightarrow> Inl e
           | Inr None \<Rightarrow> collect_parts ps
           | Inr (Some t) \<Rightarrow>
               if t = [] then collect_parts ps
               else (case collect_parts ps of Inl e \<Rightarrow> Inl e | Inr ts \<Rightarrow> Inr (t # ts))))"

text \<open>Strategy 2, the body of the \<open>try\<close> inside the first \<open>except\<close> block.\<close>

definition strategy2 :: "ModelResponse \<Rightarrow> exn + string option" where
  "strategy2 response =
     (case getattr ''candidates'' (candidates response) of
        Inl e \<Rightarrow> Inl e
      | Inr None \<Rightarrow> Inr None
      | Inr (Some []) \<Rightarrow> Inr None
      | Inr (Some (cand # _)) \<Rightarrow>
          (case getattr ''content'' (content cand) of
             Inl e \<Rightarrow> Inl e
           | Inr None \<Rightarrow> Inr None
           | Inr (Some ct) \<Rightarrow>
               (case getattr ''parts'' (parts ct) of
                  Inl e \<Rightarrow> Inl e
                | Inr None \<Rightarrow> Inr None
                | Inr (Some []) \<Rightarrow> Inr None
                | Inr (Some ps) \<Rightarrow>
                    (case collect_parts ps of
                       Inl e \<Rightarrow> Inl e
                     | Inr text_parts \<Rightarrow>
                         if text_parts = [] then Inr None
                         else Inr (Some (concat text_parts))))))"

text \<open>
  The two nested \<open>try\<close> blocks: \<open>mermaid_code\<close> after them (\<open>None\<close> is Python's
  \<open>None\<close>), or the exception that leaves them. Each \<open>except Exception\<close> catches what is
  an \<open>Exception\<close> and formats it for its diagnostic line before it goes on.
\<close>

definition extract_text :: "ModelResponse \<Rightarrow> exn + string option" where
  "extract_text response =
     (case strategy1 response of
        Inr v \<Rightarrow> Inr v
      | Inl e \<Rightarrow>
          if \<not> isinstance_Exception e then Inl e
          else (case str e of
             Inl raised \<Rightarrow> Inl raised
           | Inr message \<Rightarrow>
               (case strategy2 response of
                  Inr v \<Rightarrow> Inr v
                | Inl e2 \<Rightarrow>
                    if \<not> isinstance_Exception e2 then Inl e2
                    else (case str e2 of
                       Inl raised \<Rightarrow> Inl raised
                     | Inr message2 \<Rightarrow> Inr None))))"

section \<open>Diagram Sanitizer\<close>

definition strip_fences :: "string \<Rightarrow> string" where
  "strip_fences code = strip (replace (replace (strip code) ''```mermaid'' []) ''```'' [])"

text \<open>The search loop: the new \<open>mermaid_code\<close> if a line matched, \<open>lines[i:]\<close> joined.\<close>

fun find_graph :: "string list \<Rightarrow> string option" where
  "find_graph [] = None"
| "find_graph (l # ls) =
     (if startswith (strip l) ''graph'' then Some (join nl (l # ls)) else find_graph ls)"

definition from_graph :: "string \<Rightarrow> string" where
  "from_graph code =
     (if startswith code ''graph'' then code
      else (case find_graph (split code nl) of None \<Rightarrow> code | Some c \<Rightarrow> c))"

definition clean_line :: "string \<Rightarrow> string" where
  "clean_line line =
     (if CHR ''['' \<in> set line \<and> CHR '']'' \<in> set line then replace line '':'' '' -'' else line)"

definition clean_syntax :: "string \<Rightarrow> string" where
  "clean_syntax code = join nl (map clean_line (split code nl))"

text \<open>The text that reaches the validation gate.\<close>

definition clean :: "string \<Rightarrow> string" where
  "clean code = clean_syntax (from_graph (strip_fences code))"

datatype sanitized = Invalid string | SanitizedDiagram string

text \<open>
  The sanitizer with its validation gate: \<open>Invalid\<close> carries the first 300 characters
  that the handler returns as \<open>raw\<close>.
\<close>

definition sanitize :: "string \<Rightarrow> sanitized" where
  "sanitize code =
     (if \<not> contains ''graph TD'' (clean code) \<and> \<not> contains ''graph LR'' (clean code)
      then Invalid (take 300 (clean code))
      else SanitizedDiagram (clean code))"

section \<open>Roadmap Orchestrator\<close>

text \<open>
  The two collaborators are functions of what they are sent: the text-generation client
  takes the prompt, the rendering service the diagram source; either may raise. The
  handler's result comes with the list of diagram sources posted to the rendering service;
  \<open>Inl\<close> is an exception that leaves the handler. Writing the diagnostic lines to the
  standard output has no part in the model.
\<close>

definition render_result :: "string \<Rightarrow> KrokiResponse \<Rightarrow> dict" where
  "render_result mermaid_code kroki_response =
     (if status_code kroki_response = 200
      then [(''mermaid'', JStr mermaid_code),
            (''svg'', JStr (kroki_text kroki_response)),
            (''success'', JBool True)]
      else if contains ''syntax'' (lower (kroki_text kroki_response))
      then [(''error'', JStr ''The generated diagram has syntax errors. Try a simpler request.''),
            (''mermaid'', JStr mermaid_code),
            (''details'', JStr (take 300 (kroki_text kroki_response)))]
      else [(''error'', JStr ''Diagram rendering failed''),
            (''mermaid'', JStr mermaid_code),
            (''details'', JStr (take 300 (kroki_text kroki_response)))])"

text \<open>The body of the outer \<open>try\<close>: \<open>Inl\<close> is an exception leaving it.\<close>

definition handle_body ::
  "(string \<Rightarrow> exn + ModelResponse) \<Rightarrow> (string \<Rightarrow> exn + KrokiResponse) \<Rightarrow> string
     \<Rightarrow> (exn + dict) \<times> string list" where
  "handle_body generate_content kroki prompt =
     (case generate_content prompt of
        Inl e \<Rightarrow> (Inl e, [])
      | Inr response \<Rightarrow>
          (case extract_text response of
             Inl e \<Rightarrow> (Inl e, [])
           | Inr None \<Rightarrow> (Inr [(''error'', JStr ''Could not generate content'')], [])
           | Inr (Some code) \<Rightarrow>
               if code = [] then (Inr [(''error'', JStr ''Could not generate content'')], [])
               else (case sanitize code of
                  Invalid raw \<Rightarrow>
                    (Inr [(''error'', JStr ''No valid graph found''), (''raw'', JStr raw)], [])
                | SanitizedDiagram mermaid_code \<Rightarrow>
                    (case kroki mermaid_code of
                       Inl e \<Rightarrow> (Inl e, [mermaid_code])
                     | Inr kroki_response \<Rightarrow>
                         (Inr (render_result mermaid_code kroki_response), [mermaid_code])))))"

definition generate_roadmap ::
  "RoadmapRequest \<Rightarrow> (string \<Rightarrow> exn + ModelResponse) \<Rightarrow> (string \<Rightarrow> exn + KrokiResponse)
     \<Rightarrow> (exn + dict) \<times> string list" where
  "generate_roadmap req generate_content kroki =
     (case handle_body generate_content kroki (build_prompt req) of
        (Inr result, posted) \<Rightarrow> (Inr result, posted)
      | (Inl e, posted) \<Rightarrow>
          if \<not> isinstance_Exception e then (Inl e, posted)
          else (case str e of
             Inl raised \<Rightarrow> (Inl raised, posted)
           | Inr message \<Rightarrow>
               (Inr [(''error'', JStr (''Server error: '' @ message))], posted)))"

section \<open>Patterns kept by the colon rewriting\<close>

text \<open>
  Patterns that the colon rewriting cannot create: no colon in them, no space followed by a
  hyphen and no space standing last, so that an occurrence in a rewritten line comes from
  the line itself.
\<close>

fun survives :: "string \<Rightarrow> bool" where
  "survives [] = True"
| "survives [a] = (a \<noteq> CHR '':'' \<and> a \<noteq> CHR '' '')"
| "survives (a # b # r) = (a \<noteq> CHR '':'' \<and> \<not> (a = CHR '' '' \<and> b = CHR ''-'') \<and> survives (b # r))"

section \<open>Specification-side notions and example inputs\<close>

text \<open>The text a part contributes to the concatenation: its text field, or nothing.\<close>

definition part_text_or_empty :: "part \<Rightarrow> string" where
  "part_text_or_empty p = (case part_text p of Has (Some t) \<Rightarrow> t | _ \<Rightarrow> [])"

text \<open>
  A request, model responses of the two shapes, collaborators that return or raise whatever
  they are sent, and a small diagram.
\<close>

definition go_request :: RoadmapRequest where
  "go_request = \<lparr>skill = ''Go'', language = ''Any'', speed = ''fast'', custom_prompt = []\<rparr>"

definition text_response :: "string \<Rightarrow> ModelResponse" where
  "text_response t = \<lparr>text_attr = Has (Some t), candidates = Absent\<rparr>"

definition parts_response :: "string option attr \<Rightarrow> string list \<Rightarrow> ModelResponse" where
  "parts_response direct ts =
     \<lparr>text_attr = direct,
      candidates = Has (Some [\<lparr>content = Has (Some \<lparr>parts = Has (Some (map (\<lambda>t. \<lparr>part_text = Has (Some t)\<rparr>) ts))\<rparr>)\<rparr>])\<rparr>"

definition returning :: "'a \<Rightarrow> string \<Rightarrow> exn + 'a" where
  "returning v sent = Inr v"



definition kroki_with :: "int \<Rightarrow> string \<Rightarrow> string \<Rightarrow> exn + KrokiResponse" where
  "kroki_with status body = returning \<lparr>status_code = status, kroki_text = body\<rparr>"

definition small_graph :: string where
  "small_graph = ''graph TD'' @ [nl] @ '' A[Start] --> B[End]''"

section \<open>Evaluation\<close>

lemmas sanitize_defs = sanitize_def clean_def clean_syntax_def clean_line_def from_graph_def
  strip_fences_def strip_def isspace_def nl_def

section \<open>Python strings: properties\<close>

subsection \<open>Prefixes and occurrences\<close>

lemma startswith_iff: "startswith s p \<longleftrightarrow> (\<exists>r. s = p @ r)"
  by (induction s p rule: startswith.induct) auto

lemma startswith_Nil: "startswith [] p \<longleftrightarrow> p = []"
  by (cases p) auto

lemma contains_iff: "contains p s \<longleftrightarrow> (\<exists>a b. s = a @ p @ b)"
proof (induction s)
  case Nil
  then show ?case by auto
next
  case (Cons c cs)
  show ?case
  proof
    assume "contains p (c # cs)"
    then consider "startswith (c # cs) p" | "contains p cs" by auto
    then show "\<exists>a b. c # cs = a @ p @ b"
    proof cases
      case 1
      then obtain r where "c # cs = p @ r" by (auto simp: startswith_iff)
      then have "c # cs = [] @ p @ r" by simp
      then show ?thesis by blast
    next
      case 2
      with Cons obtain a b where "cs = a @ p @ b" by auto
      then have "c # cs = (c # a) @ p @ b" by simp
      then show ?thesis by blast
    qed
  next
    assume "\<exists>a b. c # cs = a @ p @ b"
    then obtain a b where ab: "c # cs = a @ p @ b" by blast
    show "contains p (c # cs)"
    proof (cases a)
      case Nil
      with ab have "startswith (c # cs) p" by (auto simp: startswith_iff)
      then show ?thesis by simp
    next
      case (Cons x a')
      with ab have "cs = a' @ p @ b" by simp
      with Cons.IH have "contains p cs" by blast
      then show ?thesis by simp
    qed
  qed
qed

lemma contains_infix: "contains p s \<Longrightarrow> contains p (a @ s @ b)"
proof -
  assume "contains p s"
  then obtain a' b' where "s = a' @ p @ b'" by (auto simp: contains_iff)
  then have "a @ s @ b = (a @ a') @ p @ (b' @ b)" by simp
  then show ?thesis unfolding contains_iff by blast
qed

lemma contains_suffix: "contains p s \<Longrightarrow> contains p (a @ s)"
  using contains_infix [of p s a "[]"] by simp

lemma contains_longer: "contains (p @ q) s \<Longrightarrow> contains p s"
proof -
  assume "contains (p @ q) s"
  then obtain a b where "s = a @ (p @ q) @ b" by (auto simp: contains_iff)
  then have "s = a @ p @ (q @ b)" by simp
  then show ?thesis unfolding contains_iff by blast
qed

subsection \<open>Trimming\<close>

lemma rstrip_prefix: "rev (dropWhile P (rev t)) @ rev (takeWhile P (rev t)) = t"
proof -
  have "rev (dropWhile P (rev t)) @ rev (takeWhile P (rev t))
      = rev (takeWhile P (rev t) @ dropWhile P (rev t))"
    by (simp only: rev_append)
  also have "\<dots> = t" by simp
  finally show ?thesis .
qed

lemma strip_infix: "\<exists>a b. s = a @ strip s @ b"
proof -
  let ?t = "dropWhile isspace s"
  have "?t = strip s @ rev (takeWhile isspace (rev ?t))"
    unfolding strip_def by (rule rstrip_prefix [symmetric])
  moreover have "s = takeWhile isspace s @ ?t" by simp
  ultimately have "s = takeWhile isspace s @ strip s @ rev (takeWhile isspace (rev ?t))"
    by simp
  then show ?thesis by blast
qed

lemma contains_strip: "contains p (strip s) \<Longrightarrow> contains p s"
proof -
  assume c: "contains p (strip s)"
  obtain a b where "s = a @ strip s @ b" using strip_infix by blast
  with contains_infix [OF c, of a b] show ?thesis by simp
qed

subsection \<open>Removing the fences\<close>

lemma replace_fence_Cons:
  "replace (c # cs) ''```'' [] =
     (if startswith (c # cs) ''```'' then replace (drop 2 cs) ''```'' []
      else c # replace cs ''```'' [])"
  by (simp add: numeral_2_eq_2)

lemma unfenced_one:
  assumes "startswith (replace s ''```'' []) ''`''"
  shows "startswith s ''`''"
proof (cases s)
  case Nil
  with assms show ?thesis by simp
next
  case (Cons c cs)
  show ?thesis
  proof (cases "startswith (c # cs) ''```''")
    case True
    then show ?thesis using Cons by simp
  next
    case False
    with assms Cons have "startswith (c # replace cs ''```'' []) ''`''"
      by (simp only: replace_fence_Cons if_False simp_thms)
    then show ?thesis using Cons by simp
  qed
qed

lemma unfenced_two:
  assumes "startswith (replace s ''```'' []) ''``''"
  shows "startswith s ''``''"
proof (cases s)
  case Nil
  with assms show ?thesis by simp
next
  case (Cons c cs)
  show ?thesis
  proof (cases "startswith (c # cs) ''```''")
    case True
    then show ?thesis using Cons by (cases cs) simp_all
  next
    case False
    with assms Cons have "startswith (c # replace cs ''```'' []) ''``''"
      by (simp only: replace_fence_Cons if_False simp_thms)
    then have "c = CHR ''`''" and "startswith (replace cs ''```'' []) ''`''" by simp_all
    with unfenced_one [of cs] show ?thesis using Cons by simp
  qed
qed

lemma no_fence_replace_aux:
  "old = ''```'' \<Longrightarrow> new = [] \<Longrightarrow> \<not> contains ''```'' (replace s old new)"
proof (induction s old new rule: replace.induct)
  case (1 old new)
  then show ?case by simp
next
  case (2 c cs old new)
  note old = \<open>old = ''```''\<close> and new = \<open>new = []\<close>
  show ?case
  proof (cases "startswith (c # cs) ''```''")
    case True
    with "2.IH"(2) old new
    have "\<not> contains ''```'' (replace (drop (length ''```'') (c # cs)) ''```'' [])"
      by blast
    then have "\<not> contains ''```'' (replace (drop 2 cs) ''```'' [])"
      by (simp add: numeral_2_eq_2)
    with True show ?thesis unfolding old new
      by (simp only: replace_fence_Cons if_True simp_thms)
  next
    case False
    with "2.IH"(3) old new have ih: "\<not> contains ''```'' (replace cs ''```'' [])"
      by blast
    have "\<not> startswith (c # replace cs ''```'' []) ''```''"
    proof
      assume "startswith (c # replace cs ''```'' []) ''```''"
      then have "c = CHR ''`''" and "startswith (replace cs ''```'' []) ''``''" by simp_all
      with unfenced_two [of cs] have "startswith (c # cs) ''```''" by simp
      with False show False by simp
    qed
    with ih have "\<not> contains ''```'' (c # replace cs ''```'' [])"
      by (simp only: contains.simps) simp
    with False show ?thesis unfolding old new
      by (simp only: replace_fence_Cons if_False simp_thms)
  qed
qed

lemma no_fence_replace: "\<not> contains ''```'' (replace s ''```'' [])"
  by (rule no_fence_replace_aux) simp_all

lemma replace_absent:
  "old \<noteq> [] \<Longrightarrow> \<not> contains old s \<Longrightarrow> replace s old new = s"
  by (induction s) simp_all

lemma no_fence_strip_fences: "\<not> contains ''```'' (strip_fences code)"
  unfolding strip_fences_def using no_fence_replace contains_strip by blast

subsection \<open>Lines\<close>

lemma split_not_Nil: "split s sep \<noteq> []"
  by (induction s) (auto split: list.splits)

lemma join_Cons_Cons: "join sep ((c # l) # ls) = c # join sep (l # ls)"
  by (cases ls) simp_all

lemma join_split: "join sep (split s sep) = s"
proof (induction s)
  case Nil
  then show ?case by simp
next
  case (Cons c cs)
  obtain l ls where ls: "split cs sep = l # ls"
    using split_not_Nil [of cs sep] by (cases "split cs sep") auto
  with Cons show ?case by (simp add: join_Cons_Cons)
qed

lemma split_lines_no_sep: "l \<in> set (split s sep) \<Longrightarrow> sep \<notin> set l"
proof (induction s arbitrary: l)
  case Nil
  then show ?case by simp
next
  case (Cons c cs)
  obtain m ms where ms: "split cs sep = m # ms"
    using split_not_Nil [of cs sep] by (cases "split cs sep") auto
  show ?case
  proof (cases "c = sep")
    case True
    with Cons show ?thesis by auto
  next
    case False
    with Cons.prems ms have "l = c # m \<or> l \<in> set ms" by simp
    moreover have "sep \<notin> set m" and "\<And>x. x \<in> set ms \<Longrightarrow> sep \<notin> set x"
      using Cons.IH ms by simp_all
    ultimately show ?thesis using False by auto
  qed
qed

lemma split_no_sep: "sep \<notin> set l \<Longrightarrow> split l sep = [l]"
  by (induction l) auto

lemma split_append_sep: "sep \<notin> set l \<Longrightarrow> split (l @ sep # t) sep = l # split t sep"
  by (induction l) auto

lemma split_join:
  "ls \<noteq> [] \<Longrightarrow> (\<And>l. l \<in> set ls \<Longrightarrow> sep \<notin> set l) \<Longrightarrow> split (join sep ls) sep = ls"
proof (induction sep ls rule: join.induct)
  case (1 sep)
  then show ?case by simp
next
  case (2 sep l)
  then show ?case by (simp add: split_no_sep)
next
  case (3 sep l m ls)
  then have "split (join sep (m # ls)) sep = m # ls" by simp
  moreover from 3 have "sep \<notin> set l" by simp
  ultimately show ?case by (simp add: split_append_sep)
qed

lemma startswith_before_sep:
  "sep \<notin> set p \<Longrightarrow> startswith (a @ sep # b) p \<longleftrightarrow> startswith a p"
proof (induction a arbitrary: p)
  case Nil
  then show ?case by (cases p) auto
next
  case (Cons x a)
  then show ?case by (cases p) auto
qed

lemma startswith_join:
  "sep \<notin> set p \<Longrightarrow> startswith (join sep (l # ls)) p \<longleftrightarrow> startswith l p"
  by (cases ls) (simp_all add: startswith_before_sep)

lemma contains_around_sep:
  assumes "sep \<notin> set p" and "p \<noteq> []"
  shows "contains p (a @ sep # b) \<longleftrightarrow> contains p a \<or> contains p b"
proof (induction a)
  case Nil
  from assms have "\<not> startswith (sep # b) p" by (cases p) auto
  with assms show ?case by simp
next
  case (Cons x a)
  have "startswith (x # a @ sep # b) p \<longleftrightarrow> startswith (x # a) p"
    using startswith_before_sep [OF assms(1), of "x # a" b] by simp
  with Cons show ?case by auto
qed

lemma contains_join:
  "sep \<notin> set p \<Longrightarrow> p \<noteq> [] \<Longrightarrow>
   contains p (join sep ls) \<longleftrightarrow> (\<exists>l \<in> set ls. contains p l)"
proof (induction sep ls rule: join.induct)
  case (1 sep)
  then show ?case by simp
next
  case (2 sep l)
  then show ?case by simp
next
  case (3 sep l m ls)
  then have "contains p (join sep (m # ls)) \<longleftrightarrow> (\<exists>l \<in> set (m # ls). contains p l)"
    by blast
  with 3(2,3) show ?case by (simp add: contains_around_sep)
qed

section \<open>Response Extractor: properties\<close>

lemma collect_parts_readable:
  "\<forall>p \<in> set ps. \<forall>e. part_text p = Raises e \<longrightarrow> class_of e = AttributeError \<Longrightarrow>
   collect_parts ps = Inr (filter (\<lambda>t. t \<noteq> []) (map part_text_or_empty ps))"
proof (induction ps)
  case Nil
  then show ?case by simp
next
  case (Cons p ps)
  then have ih: "collect_parts ps = Inr (filter (\<lambda>t. t \<noteq> []) (map part_text_or_empty ps))"
    by simp
  from Cons.prems have nr: "\<And>e. part_text p = Raises e \<Longrightarrow> class_of e = AttributeError"
    by simp
  show ?case
  proof (cases "part_text p")
    case Absent
    then have "part_text_or_empty p = []" by (simp add: part_text_or_empty_def)
    with Absent ih show ?thesis by simp
  next
    case (Raises e)
    with nr have e: "class_of e = AttributeError" by simp
    from Raises have "part_text_or_empty p = []" by (simp add: part_text_or_empty_def)
    with Raises e ih show ?thesis by simp
  next
    case (Has v)
    show ?thesis
    proof (cases v)
      case None
      with Has have "part_text_or_empty p = []" by (simp add: part_text_or_empty_def)
      with Has None ih show ?thesis by simp
    next
      case (Some t)
      with Has have "part_text_or_empty p = t" by (simp add: part_text_or_empty_def)
      with Has Some ih show ?thesis by simp
    qed
  qed
qed

lemma concat_filter_nonempty: "concat (filter (\<lambda>t. t \<noteq> []) ts) = concat ts"
  by (induction ts) auto

lemma filter_nonempty_Nil: "(filter (\<lambda>t. t \<noteq> []) ts = []) = (concat ts = [])"
  by (induction ts) auto

lemma isinstance_Exception_class: "isinstance_Exception e \<longleftrightarrow> class_of e \<noteq> BaseException"
  by (cases e rule: isinstance_Exception.cases) simp_all

lemma strategy1_raises:
  "strategy1 response = Inl e \<longleftrightarrow> text_attr response = Raises e \<and> class_of e \<noteq> AttributeError"
  by (cases "text_attr response") (auto simp: strategy1_def)

text \<open>
  Claim C1, as the code has it: strategy 2 sits in the handler of strategy 1's exception.
  When reading the direct text raises an \<open>Exception\<close> that is no \<open>AttributeError\<close> and
  whose message can be produced, and the first candidate has content with a non-empty
  sequence of parts, none of which raises anything but an \<open>AttributeError\<close> when its text
  is read, the extractor yields the concatenation, in order and with no separator, of the
  parts' texts (nothing when that is empty). When reading the direct text raises nothing
  but an \<open>AttributeError\<close>, which \<open>hasattr\<close> takes for a missing attribute, strategy 2
  is not attempted: the extractor yields the direct text, or nothing when there is none.
\<close>

theorem extract_candidates:
  "(text_attr response = Raises e \<and> class_of e = Exception \<and> str e = Inr m \<and>
    candidates response = Has (Some (cand # cands)) \<and>
    content cand = Has (Some ct) \<and> parts ct = Has (Some ps) \<and> ps \<noteq> [] \<and>
    (\<forall>p \<in> set ps. \<forall>e'. part_text p = Raises e' \<longrightarrow> class_of e' = AttributeError)
    \<longrightarrow> extract_text response =
          Inr (if concat (map part_text_or_empty ps) = [] then None
               else Some (concat (map part_text_or_empty ps))))
   \<and> ((\<forall>e'. text_attr response = Raises e' \<longrightarrow> class_of e' = AttributeError)
    \<longrightarrow> extract_text response = Inr (case text_attr response of Has v \<Rightarrow> v | _ \<Rightarrow> None))"
proof (intro conjI impI)
  assume h: "text_attr response = Raises e \<and> class_of e = Exception \<and> str e = Inr m \<and>
    candidates response = Has (Some (cand # cands)) \<and>
    content cand = Has (Some ct) \<and> parts ct = Has (Some ps) \<and> ps \<noteq> [] \<and>
    (\<forall>p \<in> set ps. \<forall>e'. part_text p = Raises e' \<longrightarrow> class_of e' = AttributeError)"
  then have s1: "strategy1 response = Inl e"
    by (simp add: strategy1_raises)
  from h have caught: "isinstance_Exception e" and shown: "str e = Inr m"
    by (simp_all add: isinstance_Exception_class)
  from h have cp: "collect_parts ps = Inr (filter (\<lambda>t. t \<noteq> []) (map part_text_or_empty ps))"
    by (intro collect_parts_readable) simp
  from h obtain q qs where ps: "ps = q # qs" by (cases ps) auto
  from h have "strategy2 response =
      (if concat (map part_text_or_empty ps) = [] then Inr None
       else Inr (Some (concat (map part_text_or_empty ps))))"
    unfolding strategy2_def using cp
    by (simp add: ps filter_nonempty_Nil concat_filter_nonempty del: collect_parts.simps)
  with s1 caught shown show "extract_text response =
          Inr (if concat (map part_text_or_empty ps) = [] then None
               else Some (concat (map part_text_or_empty ps)))"
    by (simp add: extract_text_def)
next
  assume h: "\<forall>e'. text_attr response = Raises e' \<longrightarrow> class_of e' = AttributeError"
  show "extract_text response = Inr (case text_attr response of Has v \<Rightarrow> v | _ \<Rightarrow> None)"
  proof (cases "text_attr response")
    case Absent
    then show ?thesis by (simp add: extract_text_def strategy1_def)
  next
    case (Raises e)
    with h have "class_of e = AttributeError" by simp
    with Raises show ?thesis by (simp add: extract_text_def strategy1_def)
  next
    case (Has v)
    then show ?thesis by (simp add: extract_text_def strategy1_def)
  qed
qed

theorem extract_candidates_witness:
  "extract_text (parts_response (Raises (Exn Exception (Inr ''blocked'')))
       [''graph TD'', [], [nl], ''A --> B''])
     = Inr (Some (''graph TD'' @ [nl] @ ''A --> B''))
   \<and> extract_text (parts_response (Raises (Exn AttributeError (Inr ''text''))) [''graph TD''])
     = Inr None"
  using extract_candidates [of
      "parts_response (Raises (Exn Exception (Inr ''blocked''))) [''graph TD'', [], [nl], ''A --> B'']"
      "Exn Exception (Inr ''blocked'')" "''blocked''"
      "\<lparr>content = Has (Some \<lparr>parts = Has (Some (map (\<lambda>t. \<lparr>part_text = Has (Some t)\<rparr>) [''graph TD'', [], [nl], ''A --> B'']))\<rparr>)\<rparr>"
      "[]"
      "\<lparr>parts = Has (Some (map (\<lambda>t. \<lparr>part_text = Has (Some t)\<rparr>) [''graph TD'', [], [nl], ''A --> B'']))\<rparr>"
      "map (\<lambda>t. \<lparr>part_text = Has (Some t)\<rparr>) [''graph TD'', [], [nl], ''A --> B'']"]
    extract_candidates [of "parts_response (Raises (Exn AttributeError (Inr ''text''))) [''graph TD'']"]
  by (simp add: parts_response_def part_text_or_empty_def)

text \<open>
  Claim C1 as stated fails: an empty direct text with a usable candidate is not recovered.
\<close>

theorem extract_empty_text_counterexample:
  "text_attr (parts_response (Has (Some [])) [''graph TD'']) = Has (Some [])
   \<and> strategy2 (parts_response (Has (Some [])) [''graph TD'']) = Inr (Some ''graph TD'')
   \<and> extract_text (parts_response (Has (Some [])) [''graph TD'']) = Inr (Some [])
   \<and> fst (generate_roadmap go_request
            (returning (parts_response (Has (Some [])) [''graph TD''])) (kroki_with 200 ''<svg/>''))
       = Inr [(''error'', JStr ''Could not generate content'')]"
  by (simp add: parts_response_def strategy1_def strategy2_def extract_text_def
      generate_roadmap_def handle_body_def returning_def)

section \<open>Diagram Sanitizer: properties\<close>

subsection \<open>The search for the graph line\<close>

lemma find_graph_None:
  "find_graph ls = None \<longleftrightarrow> (\<forall>l \<in> set ls. \<not> startswith (strip l) ''graph'')"
  by (induction ls) auto

lemma find_graph_Some:
  "find_graph ls = Some d \<Longrightarrow>
   \<exists>ks l ms. ls = ks @ l # ms \<and> d = join nl (l # ms) \<and> startswith (strip l) ''graph''"
proof (induction ls)
  case Nil
  then show ?case by simp
next
  case (Cons k ls)
  show ?case
  proof (cases "startswith (strip k) ''graph''")
    case True
    with Cons.prems have "k # ls = [] @ k # ls \<and> d = join nl (k # ls)" by simp
    with True show ?thesis by blast
  next
    case False
    with Cons obtain ks l ms where
      "ls = ks @ l # ms" "d = join nl (l # ms)" "startswith (strip l) ''graph''"
      by auto
    then have "k # ls = (k # ks) @ l # ms" by simp
    with \<open>d = join nl (l # ms)\<close> \<open>startswith (strip l) ''graph''\<close> show ?thesis by blast
  qed
qed

lemma join_suffix: "\<exists>a. join sep (ks @ l # ms) = a @ join sep (l # ms)"
proof (induction ks)
  case Nil
  then show ?case by simp
next
  case (Cons k ks)
  then obtain a where a: "join sep (ks @ l # ms) = a @ join sep (l # ms)" by blast
  obtain x xs where "ks @ l # ms = x # xs" by (cases ks) auto
  then have "join sep ((k # ks) @ l # ms) = k @ sep # join sep (ks @ l # ms)" by simp
  with a have "join sep ((k # ks) @ l # ms) = (k @ sep # a) @ join sep (l # ms)" by simp
  then show ?case by blast
qed

lemma from_graph_suffix: "\<exists>a. code = a @ from_graph code"
proof (cases "startswith code ''graph''")
  case True
  then have "code = [] @ from_graph code" by (simp add: from_graph_def)
  then show ?thesis by blast
next
  case False
  show ?thesis
  proof (cases "find_graph (split code nl)")
    case None
    with False have "code = [] @ from_graph code" by (simp add: from_graph_def)
    then show ?thesis by blast
  next
    case (Some d)
    then obtain ks l ms where ks: "split code nl = ks @ l # ms" and d: "d = join nl (l # ms)"
      using find_graph_Some by blast
    obtain a where "join nl (ks @ l # ms) = a @ join nl (l # ms)"
      using join_suffix by blast
    with ks d have "code = a @ d" using join_split [of nl code] by simp
    with False Some show ?thesis by (auto simp: from_graph_def)
  qed
qed

lemma contains_from_graph: "contains p (from_graph code) \<Longrightarrow> contains p code"
proof -
  assume c: "contains p (from_graph code)"
  obtain a where "code = a @ from_graph code" using from_graph_suffix by blast
  with contains_suffix [OF c, of a] show ?thesis by simp
qed

subsection \<open>Colons in labelled lines\<close>

lemma replace_colon_Cons:
  "replace (c # cs) '':'' '' -'' =
     (if c = CHR '':'' then CHR '' '' # CHR ''-'' # replace cs '':'' '' -''
      else c # replace cs '':'' '' -'')"
  by simp

lemma replace_colon_Nil: "replace [] '':'' '' -'' = []"
  by simp

lemma replace_colon_set: "set (replace s '':'' '' -'') \<subseteq> set s - {CHR '':''} \<union> {CHR '' '', CHR ''-''}"
  by (induction s) auto

lemma replace_colon_keeps: "c \<in> set s \<Longrightarrow> c \<noteq> CHR '':'' \<Longrightarrow> c \<in> set (replace s '':'' '' -'')"
  by (induction s) auto

lemma replace_colon_absent: "CHR '':'' \<notin> set s \<Longrightarrow> replace s '':'' '' -'' = s"
  by (induction s) auto

lemma clean_line_idem: "clean_line (clean_line l) = clean_line l"
proof (cases "CHR ''['' \<in> set l \<and> CHR '']'' \<in> set l")
  case True
  let ?r = "replace l '':'' '' -''"
  from True have "CHR ''['' \<in> set ?r" and "CHR '']'' \<in> set ?r"
    by (simp_all add: replace_colon_keeps)
  moreover have "CHR '':'' \<notin> set ?r" using replace_colon_set [of l] by auto
  ultimately show ?thesis using True by (simp add: clean_line_def replace_colon_absent del: replace.simps)
next
  case False
  then show ?thesis by (auto simp: clean_line_def)
qed

lemma clean_line_no_nl: "nl \<notin> set l \<Longrightarrow> nl \<notin> set (clean_line l)"
  using replace_colon_set [of l] by (auto simp: clean_line_def nl_def)

lemma split_clean_syntax: "split (clean_syntax code) nl = map clean_line (split code nl)"
  unfolding clean_syntax_def
proof (rule split_join)
  show "map clean_line (split code nl) \<noteq> []" by (simp add: split_not_Nil)
next
  fix l assume "l \<in> set (map clean_line (split code nl))"
  then obtain k where "k \<in> set (split code nl)" and "l = clean_line k" by auto
  then show "nl \<notin> set l" using split_lines_no_sep clean_line_no_nl by blast
qed

lemma clean_syntax_idem: "clean_syntax (clean_syntax code) = clean_syntax code"
proof -
  have "clean_syntax (clean_syntax code) = join nl (map clean_line (map clean_line (split code nl)))"
    by (simp only: clean_syntax_def [of "clean_syntax code"] split_clean_syntax)
  also have "\<dots> = clean_syntax code"
    by (simp add: clean_syntax_def clean_line_idem comp_def)
  finally show ?thesis .
qed

lemma survives_no_colon: "survives p \<Longrightarrow> CHR '':'' \<notin> set p"
  by (induction p rule: survives.induct) auto

lemma startswith_replace_colon_back:
  "survives p \<Longrightarrow> startswith (replace s '':'' '' -'') p \<Longrightarrow> startswith s p"
proof (induction p arbitrary: s rule: survives.induct)
  case 1
  then show ?case by simp
next
  case (2 a)
  then show ?case by (cases s) (auto split: if_splits)
next
  case (3 a b r)
  show ?case
  proof (cases s)
    case Nil
    with 3 show ?thesis by simp
  next
    case (Cons c cs)
    show ?thesis
    proof (cases "c = CHR '':''")
      case True
      with 3(2,3) Cons show ?thesis by auto
    next
      case False
      with 3(3) Cons have "a = c" and "startswith (replace cs '':'' '' -'') (b # r)" by auto
      moreover from 3(2) have "survives (b # r)" by simp
      ultimately show ?thesis using 3(1) Cons by simp
    qed
  qed
qed

lemma startswith_replace_colon_forth:
  "CHR '':'' \<notin> set p \<Longrightarrow> startswith s p \<Longrightarrow> startswith (replace s '':'' '' -'') p"
  by (induction s p rule: startswith.induct) auto

lemma startswith_replace_colon:
  "survives p \<Longrightarrow> startswith (replace s '':'' '' -'') p \<longleftrightarrow> startswith s p"
  using startswith_replace_colon_back startswith_replace_colon_forth survives_no_colon by blast

lemma startswith_clean_line:
  "survives p \<Longrightarrow> startswith (clean_line l) p \<longleftrightarrow> startswith l p"
  by (simp add: clean_line_def startswith_replace_colon del: replace.simps)

lemma contains_replace_colon:
  assumes "survives p" and "p \<noteq> []" and "hd p \<noteq> CHR ''-''"
  shows "contains p (replace s '':'' '' -'') \<Longrightarrow> contains p s"
proof (induction s)
  case Nil
  then show ?case by simp
next
  case (Cons c cs)
  show ?case
  proof (cases "c = CHR '':''")
    case True
    from assms obtain a r where p: "p = a # r" by (cases p) auto
    have "\<not> startswith (CHR '' '' # CHR ''-'' # replace cs '':'' '' -'') p"
      using assms(1) p by (cases r) auto
    moreover have "\<not> startswith (CHR ''-'' # replace cs '':'' '' -'') p"
      using assms(3) p by auto
    ultimately have "contains p (replace cs '':'' '' -'')"
      using Cons.prems True by simp
    with Cons.IH show ?thesis by simp
  next
    case False
    with Cons.prems consider "startswith (replace (c # cs) '':'' '' -'') p"
      | "contains p (replace cs '':'' '' -'')" by auto
    then show ?thesis
    proof cases
      case 1
      with assms(1) have "startswith (c # cs) p" by (rule startswith_replace_colon_back)
      then show ?thesis by simp
    next
      case 2
      with Cons.IH show ?thesis by simp
    qed
  qed
qed

lemma contains_clean_line:
  "survives p \<Longrightarrow> p \<noteq> [] \<Longrightarrow> hd p \<noteq> CHR ''-'' \<Longrightarrow> contains p (clean_line l) \<Longrightarrow> contains p l"
  using contains_replace_colon [of p l] by (auto simp: clean_line_def split: if_splits)

lemma contains_lines:
  "nl \<notin> set p \<Longrightarrow> p \<noteq> [] \<Longrightarrow> contains p code \<longleftrightarrow> (\<exists>l \<in> set (split code nl). contains p l)"
  using contains_join [of nl p "split code nl"] by (simp add: join_split)

lemma contains_clean_syntax:
  assumes "survives p" and "p \<noteq> []" and "hd p \<noteq> CHR ''-''" and "nl \<notin> set p"
    and "contains p (clean_syntax code)"
  shows "contains p code"
proof -
  from assms(2,4,5) obtain l where "l \<in> set (split code nl)" and "contains p (clean_line l)"
    by (auto simp: clean_syntax_def contains_join)
  with assms(1-3) have "\<exists>l \<in> set (split code nl). contains p l"
    using contains_clean_line by blast
  with assms(2,4) show ?thesis by (simp add: contains_lines)
qed

lemma startswith_first_line:
  "nl \<notin> set p \<Longrightarrow> split code nl = l # ls \<Longrightarrow> startswith code p \<longleftrightarrow> startswith l p"
  using startswith_join [of nl p l ls] join_split [of nl code] by simp

lemma startswith_clean_syntax:
  assumes "survives p" and "nl \<notin> set p"
  shows "startswith (clean_syntax code) p \<longleftrightarrow> startswith code p"
proof -
  obtain l ls where ls: "split code nl = l # ls"
    using split_not_Nil [of code nl] by (cases "split code nl") auto
  then have "split (clean_syntax code) nl = clean_line l # map clean_line ls"
    by (simp add: split_clean_syntax)
  with assms(2) have "startswith (clean_syntax code) p \<longleftrightarrow> startswith (clean_line l) p"
    by (rule startswith_first_line)
  also have "\<dots> \<longleftrightarrow> startswith l p" using assms(1) by (rule startswith_clean_line)
  also have "\<dots> \<longleftrightarrow> startswith code p" using startswith_first_line [OF assms(2) ls] by simp
  finally show ?thesis .
qed

lemma rstrip_startswith:
  assumes "p \<noteq> []" and "\<not> isspace (last p)"
  shows "startswith (rev (dropWhile isspace (rev t))) p \<longleftrightarrow> startswith t p"
proof
  assume "startswith (rev (dropWhile isspace (rev t))) p"
  then obtain r where "rev (dropWhile isspace (rev t)) = p @ r" by (auto simp: startswith_iff)
  with rstrip_prefix [of isspace t] have "t = p @ r @ rev (takeWhile isspace (rev t))" by simp
  then show "startswith t p" unfolding startswith_iff by blast
next
  assume "startswith t p"
  then obtain r where t: "t = p @ r" by (auto simp: startswith_iff)
  from assms have "rev p \<noteq> []" and "\<not> isspace (hd (rev p))" by (simp_all add: hd_rev)
  then have "dropWhile isspace (rev p) = rev p" by (cases "rev p") auto
  then have "\<exists>z. dropWhile isspace (rev r @ rev p) = z @ rev p"
    by (cases "\<forall>x \<in> set (rev r). isspace x") (auto simp: dropWhile_append)
  then obtain z where "dropWhile isspace (rev t) = z @ rev p" using t by auto
  then have "rev (dropWhile isspace (rev t)) = p @ rev z" by simp
  then show "startswith (rev (dropWhile isspace (rev t))) p" unfolding startswith_iff by blast
qed

lemma lstrip_replace_colon:
  assumes "survives p" and "p \<noteq> []" and "hd p \<noteq> CHR ''-''"
  shows "startswith (dropWhile isspace (replace l '':'' '' -'')) p
     \<longleftrightarrow> startswith (dropWhile isspace l) p"
proof (induction l)
  case Nil
  then show ?case by simp
next
  case (Cons c cs)
  from assms obtain a r where p: "p = a # r" by (cases p) auto
  with assms have a: "a \<noteq> CHR ''-''" "a \<noteq> CHR '':''"
    using survives_no_colon [of p] by auto
  show ?case
  proof (cases "c = CHR '':''")
    case True
    with a p show ?thesis by (simp add: isspace_def)
  next
    case False
    show ?thesis
    proof (cases "isspace c")
      case True
      with False Cons show ?thesis by simp
    next
      case notspace: False
      have "startswith (replace (c # cs) '':'' '' -'') p \<longleftrightarrow> startswith (c # cs) p"
        using assms(1) by (rule startswith_replace_colon)
      with False notspace show ?thesis by simp
    qed
  qed
qed

lemma graph_line_clean_line:
  "startswith (strip (clean_line l)) ''graph'' \<longleftrightarrow> startswith (strip l) ''graph''"
proof -
  have g: "''graph'' \<noteq> []" "\<not> isspace (last ''graph'')" "survives ''graph''"
    "hd ''graph'' \<noteq> CHR ''-''"
    by (simp_all add: isspace_def)
  have "startswith (strip (replace l '':'' '' -'')) ''graph'' \<longleftrightarrow> startswith (strip l) ''graph''"
    unfolding strip_def rstrip_startswith [OF g(1,2)]
    using g(3) g(1) g(4) by (rule lstrip_replace_colon)
  then show ?thesis by (simp add: clean_line_def del: replace.simps)
qed

lemma find_graph_clean_lines:
  "find_graph (map clean_line ls) = None \<longleftrightarrow> find_graph ls = None"
  by (simp add: find_graph_None graph_line_clean_line)

lemma find_graph_first:
  "startswith (strip l) ''graph'' \<Longrightarrow> split code nl = l # ls \<Longrightarrow> from_graph code = code"
  using join_split [of nl code] by (simp add: from_graph_def)

lemma from_graph_clean_syntax:
  "from_graph (clean_syntax (from_graph code)) = clean_syntax (from_graph code)"
proof (cases "startswith code ''graph''")
  case True
  have "survives ''graph''" and "nl \<notin> set ''graph''" by (simp_all add: nl_def)
  then have "startswith (clean_syntax code) ''graph''"
    using True by (simp add: startswith_clean_syntax)
  with True show ?thesis by (simp add: from_graph_def)
next
  case False
  show ?thesis
  proof (cases "find_graph (split code nl)")
    case None
    then have "find_graph (split (clean_syntax code) nl) = None"
      by (simp add: split_clean_syntax find_graph_clean_lines)
    then have "from_graph (clean_syntax code) = clean_syntax code"
      by (simp add: from_graph_def)
    with False None show ?thesis by (simp add: from_graph_def)
  next
    case (Some d)
    then obtain ks l ms where ks: "split code nl = ks @ l # ms" and d: "d = join nl (l # ms)"
      and l: "startswith (strip l) ''graph''"
      using find_graph_Some by blast
    have lines: "\<And>x. x \<in> set (l # ms) \<Longrightarrow> nl \<notin> set x"
      using split_lines_no_sep [of _ code nl] ks by auto
    have "split d nl = l # ms" unfolding d
    proof (rule split_join)
      show "l # ms \<noteq> []" by simp
    next
      fix x assume "x \<in> set (l # ms)"
      then show "nl \<notin> set x" by (rule lines)
    qed
    then have "split (clean_syntax d) nl = clean_line l # map clean_line ms"
      by (simp add: split_clean_syntax)
    moreover have "startswith (strip (clean_line l)) ''graph''"
      using l by (simp add: graph_line_clean_line)
    ultimately have "from_graph (clean_syntax d) = clean_syntax d"
      using find_graph_first by blast
    with False Some show ?thesis by (simp add: from_graph_def)
  qed
qed

lemma no_fence_clean: "\<not> contains ''```'' (clean code)"
proof
  assume "contains ''```'' (clean code)"
  then have c: "contains ''```'' (clean_syntax (from_graph (strip_fences code)))"
    by (simp only: clean_def)
  have "contains ''```'' (from_graph (strip_fences code))"
    by (rule contains_clean_syntax [OF _ _ _ _ c]) (simp_all add: nl_def)
  then have "contains ''```'' (strip_fences code)" by (rule contains_from_graph)
  with no_fence_strip_fences show False by blast
qed

lemma graph_type_clean:
  assumes "p = ''graph TD'' \<or> p = ''graph LR''" and "contains p (clean code)"
  shows "contains p (strip_fences code)"
proof -
  from assms(1) have p: "survives p" "p \<noteq> []" "hd p \<noteq> CHR ''-''" "nl \<notin> set p"
    by (auto simp: nl_def)
  from assms(2) have c: "contains p (clean_syntax (from_graph (strip_fences code)))"
    by (simp only: clean_def)
  have "contains p (from_graph (strip_fences code))"
    by (rule contains_clean_syntax [OF p c])
  then show ?thesis by (rule contains_from_graph)
qed

lemma strip_fences_fixed:
  assumes "\<not> contains ''```'' code" and "strip code = code"
  shows "strip_fences code = code"
proof -
  have "\<not> contains (''```'' @ ''mermaid'') code"
    using assms(1) contains_longer by blast
  then have "replace code ''```mermaid'' [] = code"
    by (simp add: replace_absent del: replace.simps)
  moreover have "replace code ''```'' [] = code"
    using assms(1) by (simp add: replace_absent del: replace.simps)
  ultimately show ?thesis using assms(2) by (simp add: strip_fences_def del: replace.simps)
qed

subsection \<open>The end of the cleaned text\<close>

lemma strip_end: "strip s = [] \<or> \<not> isspace (last (strip s))"
proof (cases "dropWhile isspace (rev (dropWhile isspace s)) = []")
  case True
  then show ?thesis by (simp add: strip_def)
next
  case False
  then have "\<not> isspace (hd (dropWhile isspace (rev (dropWhile isspace s))))"
    by (rule hd_dropWhile)
  with False show ?thesis by (simp add: strip_def last_rev)
qed

lemma rstrip_fixed: "s = [] \<or> \<not> isspace (last s) \<Longrightarrow> rev (dropWhile isspace (rev s)) = s"
proof -
  assume "s = [] \<or> \<not> isspace (last s)"
  then have "rev s = [] \<or> \<not> isspace (hd (rev s))" by (auto simp: hd_rev)
  then have "dropWhile isspace (rev s) = rev s" by (simp add: dropWhile_eq_self_iff)
  then show ?thesis by simp
qed

lemma last_join:
  "ls \<noteq> [] \<Longrightarrow> last ls \<noteq> [] \<Longrightarrow> join sep ls \<noteq> [] \<and> last (join sep ls) = last (last ls)"
  by (induction sep ls rule: join.induct) auto

lemma last_split:
  "s \<noteq> [] \<Longrightarrow> last s \<noteq> sep \<Longrightarrow>
   last (split s sep) \<noteq> [] \<and> last (last (split s sep)) = last s"
proof (induction s)
  case Nil
  then show ?case by simp
next
  case (Cons c cs)
  obtain l ls where ls: "split cs sep = l # ls"
    using split_not_Nil [of cs sep] by (cases "split cs sep") auto
  show ?case
  proof (cases "cs = []")
    case True
    with Cons.prems show ?thesis by simp
  next
    case False
    with Cons have "last (split cs sep) \<noteq> [] \<and> last (last (split cs sep)) = last cs"
      by simp
    with False ls show ?thesis by (cases "ls = []") auto
  qed
qed

lemma last_replace_colon:
  "l \<noteq> [] \<Longrightarrow> replace l '':'' '' -'' \<noteq> [] \<and>
     last (replace l '':'' '' -'') = (if last l = CHR '':'' then CHR ''-'' else last l)"
proof (induction l)
  case Nil
  then show ?case by simp
next
  case (Cons c cs)
  show ?case
  proof (cases "cs = []")
    case True
    then show ?thesis by simp
  next
    case False
    with Cons show ?thesis by auto
  qed
qed

lemma clean_line_end:
  assumes "l \<noteq> []" and "\<not> isspace (last l)"
  shows "clean_line l \<noteq> [] \<and> \<not> isspace (last (clean_line l))"
proof -
  have "\<not> isspace (CHR ''-'')" by (simp add: isspace_def)
  with assms last_replace_colon [OF assms(1)] show ?thesis
    by (auto simp: clean_line_def simp del: replace.simps)
qed

lemma clean_syntax_end:
  assumes "code = [] \<or> \<not> isspace (last code)"
  shows "clean_syntax code = [] \<or> \<not> isspace (last (clean_syntax code))"
proof (cases "code = []")
  case True
  then show ?thesis by (simp add: clean_syntax_def clean_line_def)
next
  case False
  with assms have "\<not> isspace (last code)" by simp
  moreover have "isspace nl" by (simp add: isspace_def nl_def)
  ultimately have "last code \<noteq> nl" by auto
  with False have l: "last (split code nl) \<noteq> []" "last (last (split code nl)) = last code"
    using last_split [of code nl] by simp_all
  let ?ls = "map clean_line (split code nl)"
  have ls: "?ls \<noteq> []" by (simp add: split_not_Nil)
  have "last ?ls = clean_line (last (split code nl))"
    by (simp add: last_map split_not_Nil)
  moreover have "clean_line (last (split code nl)) \<noteq> [] \<and>
      \<not> isspace (last (clean_line (last (split code nl))))"
    using l \<open>\<not> isspace (last code)\<close> by (intro clean_line_end) simp_all
  ultimately have "last ?ls \<noteq> []" and "\<not> isspace (last (last ?ls))" by simp_all
  with last_join [OF ls, of nl] show ?thesis by (simp add: clean_syntax_def)
qed

lemma from_graph_end:
  assumes "code = [] \<or> \<not> isspace (last code)"
  shows "from_graph code = [] \<or> \<not> isspace (last (from_graph code))"
proof -
  obtain a where "code = a @ from_graph code" using from_graph_suffix by blast
  then have "from_graph code \<noteq> [] \<Longrightarrow> code \<noteq> [] \<and> last code = last (from_graph code)"
    by (metis append_is_Nil_conv last_appendR)
  with assms show ?thesis by auto
qed

lemma clean_end: "clean code = [] \<or> \<not> isspace (last (clean code))"
  unfolding clean_def strip_fences_def
  by (intro clean_syntax_end from_graph_end strip_end)

lemma strip_no_leading:
  "dropWhile isspace (clean code) = clean code \<Longrightarrow> strip (clean code) = clean code"
  using rstrip_fixed [OF clean_end, of code] by (simp add: strip_def)

text \<open>
  Claim C5: on the fenced example the sanitizer succeeds; the fence markers are stripped and
  the colon inside the bracketed label becomes a space and a hyphen.
\<close>

theorem sanitize_fenced_example:
  "sanitize (''```mermaid'' @ [nl] @ ''graph TD'' @ [nl] @ ''  A[Start: Here] --> B[End]'' @ [nl] @ ''```'')
     = SanitizedDiagram (''graph TD'' @ [nl] @ ''  A[Start - Here] --> B[End]'')"
  by (simp add: sanitize_defs)

text \<open>
  Claim C3, as the code has it: the sanitizer is idempotent on an accepted output that does
  not begin with whitespace.
\<close>

theorem sanitize_idempotent_trimmed:
  assumes "sanitize code = SanitizedDiagram mermaid_code"
    and "dropWhile isspace mermaid_code = mermaid_code"
  shows "sanitize mermaid_code = SanitizedDiagram mermaid_code"
proof -
  from assms(1) have m: "mermaid_code = clean code"
    and v: "contains ''graph TD'' mermaid_code \<or> contains ''graph LR'' mermaid_code"
    by (auto simp: sanitize_def split: if_splits)
  from assms(2) have "strip mermaid_code = mermaid_code"
    unfolding m by (rule strip_no_leading)
  then have "strip_fences mermaid_code = mermaid_code"
    using no_fence_clean [of code] m by (simp add: strip_fences_fixed)
  moreover have "from_graph mermaid_code = mermaid_code"
    unfolding m clean_def by (rule from_graph_clean_syntax)
  moreover have "clean_syntax mermaid_code = mermaid_code"
    unfolding m clean_def by (rule clean_syntax_idem)
  ultimately have "clean mermaid_code = mermaid_code" by (simp add: clean_def)
  with v show ?thesis by (auto simp: sanitize_def)
qed

theorem sanitize_idempotent_trimmed_witness:
  "sanitize (''```mermaid'' @ [nl] @ ''graph TD'' @ [nl] @ ''  A[Plan: Go] --> B[End]'' @ [nl] @ ''```'')
     = SanitizedDiagram (''graph TD'' @ [nl] @ ''  A[Plan - Go] --> B[End]'')
   \<and> sanitize (''graph TD'' @ [nl] @ ''  A[Plan - Go] --> B[End]'')
     = SanitizedDiagram (''graph TD'' @ [nl] @ ''  A[Plan - Go] --> B[End]'')"
proof -
  have s: "sanitize (''```mermaid'' @ [nl] @ ''graph TD'' @ [nl] @ ''  A[Plan: Go] --> B[End]'' @ [nl] @ ''```'')
     = SanitizedDiagram (''graph TD'' @ [nl] @ ''  A[Plan - Go] --> B[End]'')"
    by (simp add: sanitize_defs)
  have t: "dropWhile isspace (''graph TD'' @ [nl] @ ''  A[Plan - Go] --> B[End]'')
     = ''graph TD'' @ [nl] @ ''  A[Plan - Go] --> B[End]''"
    by (simp add: isspace_def)
  from sanitize_idempotent_trimmed [OF s t] s show ?thesis by simp
qed

text \<open>
  Claim C3 as stated fails: an accepted output may start with the indentation of its graph
  line, which a second run trims.
\<close>

theorem sanitize_twice_counterexample:
  "sanitize (''Plan'' @ [nl] @ ''  graph TD'') = SanitizedDiagram ''  graph TD''
   \<and> sanitize ''  graph TD'' = SanitizedDiagram ''graph TD''
   \<and> ''  graph TD'' \<noteq> ''graph TD''"
  by (simp add: sanitize_defs)

subsection \<open>Where the cleaned text starts\<close>

lemma graph_line_lstrip:
  "startswith (strip l) ''graph'' \<longleftrightarrow> startswith (dropWhile isspace l) ''graph''"
  unfolding strip_def by (rule rstrip_startswith) (simp_all add: isspace_def)

lemma graph_line_unindented: "startswith l ''graph'' \<Longrightarrow> startswith (strip l) ''graph''"
proof -
  assume g: "startswith l ''graph''"
  then obtain r where "l = CHR ''g'' # ''raph'' @ r" by (auto simp: startswith_iff)
  then have "dropWhile isspace l = l" by (simp add: isspace_def)
  with g show ?thesis by (simp add: graph_line_lstrip)
qed

lemma find_graph_find_None:
  "find (\<lambda>l. startswith (strip l) ''graph'') ls = None \<longleftrightarrow> find_graph ls = None"
  by (induction ls) auto

lemma find_graph_find_Some:
  "find_graph ls = Some d \<Longrightarrow>
   \<exists>l ms. find (\<lambda>l. startswith (strip l) ''graph'') ls = Some l \<and> d = join nl (l # ms)
     \<and> set (l # ms) \<subseteq> set ls"
proof (induction ls)
  case Nil
  then show ?case by simp
next
  case (Cons k ls)
  show ?case
  proof (cases "startswith (strip k) ''graph''")
    case True
    with Cons.prems show ?thesis by auto
  next
    case False
    with Cons obtain l ms where
      "find (\<lambda>l. startswith (strip l) ''graph'') ls = Some l" "d = join nl (l # ms)"
      "set (l # ms) \<subseteq> set ls"
      by auto
    with False have "find (\<lambda>l. startswith (strip l) ''graph'') (k # ls) = Some l
        \<and> d = join nl (l # ms) \<and> set (l # ms) \<subseteq> set (k # ls)"
      by auto
    then show ?thesis by blast
  qed
qed

lemma from_graph_first_line:
  assumes "\<exists>l \<in> set (split code nl). startswith (strip l) ''graph''"
  shows "\<exists>l ms. find (\<lambda>l. startswith (strip l) ''graph'') (split code nl) = Some l
    \<and> split (from_graph code) nl = l # ms"
proof (cases "startswith code ''graph''")
  case True
  obtain l ms where ls: "split code nl = l # ms"
    using split_not_Nil [of code nl] by (cases "split code nl") auto
  have "nl \<notin> set ''graph''" by (simp add: nl_def)
  with True ls have "startswith l ''graph''" by (simp add: startswith_first_line)
  then have "startswith (strip l) ''graph''" by (rule graph_line_unindented)
  with ls True show ?thesis by (simp add: from_graph_def)
next
  case False
  from assms obtain d where d: "find_graph (split code nl) = Some d"
    by (cases "find_graph (split code nl)") (auto simp: find_graph_None)
  then obtain l ms where
    f: "find (\<lambda>l. startswith (strip l) ''graph'') (split code nl) = Some l"
    and j: "d = join nl (l # ms)" and sub: "set (l # ms) \<subseteq> set (split code nl)"
    using find_graph_find_Some by blast
  have "split (join nl (l # ms)) nl = l # ms"
  proof (rule split_join)
    show "l # ms \<noteq> []" by simp
  next
    fix x assume "x \<in> set (l # ms)"
    with sub have "x \<in> set (split code nl)" by blast
    then show "nl \<notin> set x" by (rule split_lines_no_sep)
  qed
  with False d j f show ?thesis by (simp add: from_graph_def)
qed

lemma lstrip_append:
  "dropWhile P xs \<noteq> [] \<Longrightarrow> dropWhile P (xs @ ys) = dropWhile P xs @ ys"
  by (induction xs) auto

lemma lstrip_join:
  assumes "startswith (dropWhile isspace l) ''graph''"
  shows "startswith (dropWhile isspace (join nl (l # ls))) ''graph''"
proof (cases ls)
  case Nil
  with assms show ?thesis by simp
next
  case (Cons k ks)
  have "dropWhile isspace l \<noteq> []"
  proof
    assume "dropWhile isspace l = []"
    with assms have "startswith [] ''graph''" by (simp only:)
    then show False by simp
  qed
  then have "dropWhile isspace (l @ nl # join nl (k # ks))
      = dropWhile isspace l @ nl # join nl (k # ks)"
    by (rule lstrip_append)
  moreover from assms obtain r where "dropWhile isspace l = ''graph'' @ r"
    unfolding startswith_iff by blast
  ultimately have "dropWhile isspace (join nl (l # ls)) = ''graph'' @ (r @ nl # join nl (k # ks))"
    using Cons by simp
  then show ?thesis unfolding startswith_iff by blast
qed

lemma clean_starts:
  assumes "find (\<lambda>l. startswith (strip l) ''graph'') (split code nl) = Some l"
    and "split (from_graph code) nl = l # ms"
  shows "startswith (dropWhile isspace (clean_syntax (from_graph code))) ''graph''"
    and "startswith (clean_syntax (from_graph code)) ''graph'' \<longleftrightarrow> startswith l ''graph''"
proof -
  have g: "survives ''graph''" "nl \<notin> set ''graph''" by (simp_all add: nl_def)
  from assms(1) have "startswith (strip l) ''graph''" by (auto simp: find_Some_iff)
  then have "startswith (dropWhile isspace (clean_line l)) ''graph''"
    by (simp add: graph_line_clean_line graph_line_lstrip [symmetric])
  then have "startswith (dropWhile isspace (join nl (clean_line l # map clean_line ms))) ''graph''"
    by (rule lstrip_join)
  with assms(2) show "startswith (dropWhile isspace (clean_syntax (from_graph code))) ''graph''"
    by (simp add: clean_syntax_def)
  have "startswith (clean_syntax (from_graph code)) ''graph''
      \<longleftrightarrow> startswith (from_graph code) ''graph''"
    using g by (rule startswith_clean_syntax)
  also have "\<dots> \<longleftrightarrow> startswith l ''graph''"
    using g(2) assms(2) by (rule startswith_first_line)
  finally show "startswith (clean_syntax (from_graph code)) ''graph'' \<longleftrightarrow> startswith l ''graph''" .
qed

lemma clean_starts_without_graph_line:
  assumes "find (\<lambda>l. startswith (strip l) ''graph'') (split code nl) = None"
  shows "\<not> startswith (clean_syntax (from_graph code)) ''graph''"
proof -
  have g: "survives ''graph''" "nl \<notin> set ''graph''" by (simp_all add: nl_def)
  have no: "\<not> startswith code ''graph''"
  proof
    assume s: "startswith code ''graph''"
    obtain l ms where ls: "split code nl = l # ms"
      using split_not_Nil [of code nl] by (cases "split code nl") auto
    with s g(2) have "startswith l ''graph''" by (simp add: startswith_first_line)
    then have "startswith (strip l) ''graph''" by (rule graph_line_unindented)
    with ls assms show False by simp
  qed
  from assms have "find_graph (split code nl) = None" by (simp add: find_graph_find_None)
  with no have "from_graph code = code" by (simp add: from_graph_def)
  with no g show ?thesis by (simp add: startswith_clean_syntax)
qed

text \<open>
  Claim C2, as the code has it: an accepted output contains \<open>graph TD\<close> or
  \<open>graph LR\<close> and contains no code-fence marker. When a line of the trimmed text without
  fences begins with \<open>graph\<close> once trimmed, the output begins with \<open>graph\<close> after its
  leading whitespace; and the output starts with \<open>graph\<close> itself exactly when the first
  such line does, that is, when it is not indented.
\<close>

theorem sanitized_shape:
  assumes "sanitize code = SanitizedDiagram mermaid_code"
  shows "(contains ''graph TD'' mermaid_code \<or> contains ''graph LR'' mermaid_code)
    \<and> \<not> contains ''```'' mermaid_code
    \<and> ((\<exists>l \<in> set (split (strip_fences code) nl). startswith (strip l) ''graph'')
         \<longrightarrow> startswith (dropWhile isspace mermaid_code) ''graph'')
    \<and> (startswith mermaid_code ''graph'' \<longleftrightarrow>
         (\<exists>l. find (\<lambda>l. startswith (strip l) ''graph'') (split (strip_fences code) nl) = Some l
            \<and> startswith l ''graph''))"
proof -
  let ?P = "\<lambda>l. startswith (strip l) ''graph''"
  let ?c = "strip_fences code"
  from assms have m: "mermaid_code = clean_syntax (from_graph ?c)"
    and v: "contains ''graph TD'' mermaid_code \<or> contains ''graph LR'' mermaid_code"
    by (auto simp: sanitize_def clean_def split: if_splits)
  have nf: "\<not> contains ''```'' mermaid_code"
    using no_fence_clean [of code] m by (simp add: clean_def)
  have lead: "startswith (dropWhile isspace mermaid_code) ''graph''"
    if "\<exists>l \<in> set (split ?c nl). ?P l"
  proof -
    from that obtain l ms where "find ?P (split ?c nl) = Some l"
      and "split (from_graph ?c) nl = l # ms"
      using from_graph_first_line by blast
    then show ?thesis unfolding m by (rule clean_starts(1))
  qed
  have exact: "startswith mermaid_code ''graph'' \<longleftrightarrow>
      (\<exists>l. find ?P (split ?c nl) = Some l \<and> startswith l ''graph'')"
  proof (cases "find ?P (split ?c nl)")
    case None
    then have "\<not> startswith mermaid_code ''graph''"
      unfolding m by (rule clean_starts_without_graph_line)
    with None show ?thesis by simp
  next
    case (Some l)
    then have "\<exists>l \<in> set (split ?c nl). ?P l" by (auto simp: find_Some_iff)
    then obtain l' ms where "find ?P (split ?c nl) = Some l'"
      and s: "split (from_graph ?c) nl = l' # ms"
      using from_graph_first_line by blast
    with Some have "split (from_graph ?c) nl = l # ms" by simp
    with Some have "startswith mermaid_code ''graph'' \<longleftrightarrow> startswith l ''graph''"
      unfolding m by (rule clean_starts(2))
    with Some show ?thesis by simp
  qed
  from v nf lead exact show ?thesis by blast
qed

theorem sanitized_shape_witness:
  "sanitize (''Roadmap'' @ [nl] @ ''  graph LR'' @ [nl] @ ''  A --> B'' @ [nl] @ ''```'')
     = SanitizedDiagram (''  graph LR'' @ [nl] @ ''  A --> B'')
   \<and> contains ''graph LR'' (''  graph LR'' @ [nl] @ ''  A --> B'')
   \<and> \<not> contains ''```'' (''  graph LR'' @ [nl] @ ''  A --> B'')
   \<and> startswith (dropWhile isspace (''  graph LR'' @ [nl] @ ''  A --> B'')) ''graph''
   \<and> \<not> startswith (''  graph LR'' @ [nl] @ ''  A --> B'') ''graph''
   \<and> sanitize (''```mermaid'' @ [nl] @ ''graph LR'' @ [nl] @ ''A --> B'' @ [nl] @ ''```'')
     = SanitizedDiagram (''graph LR'' @ [nl] @ ''A --> B'')
   \<and> startswith (''graph LR'' @ [nl] @ ''A --> B'') ''graph''"
proof -
  have s1: "sanitize (''Roadmap'' @ [nl] @ ''  graph LR'' @ [nl] @ ''  A --> B'' @ [nl] @ ''```'')
     = SanitizedDiagram (''  graph LR'' @ [nl] @ ''  A --> B'')"
    by (simp add: sanitize_defs)
  have l1: "split (strip_fences (''Roadmap'' @ [nl] @ ''  graph LR'' @ [nl] @ ''  A --> B'' @ [nl] @ ''```'')) nl
     = [''Roadmap'', ''  graph LR'', ''  A --> B'']"
    by (simp add: sanitize_defs)
  have s2: "sanitize (''```mermaid'' @ [nl] @ ''graph LR'' @ [nl] @ ''A --> B'' @ [nl] @ ''```'')
     = SanitizedDiagram (''graph LR'' @ [nl] @ ''A --> B'')"
    by (simp add: sanitize_defs)
  have l2: "split (strip_fences (''```mermaid'' @ [nl] @ ''graph LR'' @ [nl] @ ''A --> B'' @ [nl] @ ''```'')) nl
     = [''graph LR'', ''A --> B'']"
    by (simp add: sanitize_defs)
  have p: "startswith (strip ''  graph LR'') ''graph''" "\<not> startswith (strip ''Roadmap'') ''graph''"
    "startswith (strip ''graph LR'') ''graph''"
    by (simp_all add: strip_def isspace_def)
  from sanitized_shape [OF s1] sanitized_shape [OF s2] s1 s2 show ?thesis
    unfolding l1 l2 by (simp add: p)
qed

text \<open>
  Claim C2 as stated fails: the line found by the search is kept with its indentation.
\<close>

theorem sanitized_indented_counterexample:
  "sanitize (''Roadmap'' @ [nl] @ ''  graph TD'' @ [nl] @ ''  A --> B'')
     = SanitizedDiagram (''  graph TD'' @ [nl] @ ''  A --> B'')
   \<and> \<not> startswith (''  graph TD'' @ [nl] @ ''  A --> B'') ''graph''"
  by (simp add: sanitize_defs)

section \<open>Roadmap Orchestrator: properties\<close>

lemma sanitize_valid:
  "sanitize code = SanitizedDiagram m \<Longrightarrow> (contains ''graph TD'' m \<or> contains ''graph LR'' m) \<and> m = clean code"
  by (auto simp: sanitize_def split: if_splits)

lemma generate_roadmap_posted:
  "snd (generate_roadmap req generate_content kroki) = snd (handle_body generate_content kroki (build_prompt req))"
  by (simp add: generate_roadmap_def split: prod.splits sum.splits)

text \<open>
  Claim C4: whatever the request and the collaborators do, every diagram source posted to
  the rendering service contains \<open>graph TD\<close> or \<open>graph LR\<close>.
\<close>

theorem renderer_only_valid_graph:
  "\<forall>s \<in> set (snd (generate_roadmap req generate_content kroki)).
     contains ''graph TD'' s \<or> contains ''graph LR'' s"
  unfolding generate_roadmap_posted handle_body_def
  by (auto split: sum.splits option.splits sanitized.splits dest: sanitize_valid)

theorem renderer_only_valid_graph_witness:
  "snd (generate_roadmap go_request (returning (text_response small_graph)) (kroki_with 200 ''<svg/>''))
     = [small_graph]
   \<and> (contains ''graph TD'' small_graph \<or> contains ''graph LR'' small_graph)"
proof -
  have posted: "snd (generate_roadmap go_request (returning (text_response small_graph))
      (kroki_with 200 ''<svg/>'')) = [small_graph]"
    by (simp add: generate_roadmap_def handle_body_def returning_def kroki_with_def
        text_response_def extract_text_def strategy1_def small_graph_def sanitize_defs)
  with renderer_only_valid_graph [of go_request "returning (text_response small_graph)"
      "kroki_with 200 ''<svg/>''"]
  show ?thesis by simp
qed

text \<open>
  Claim C10: when the rendering service answers with status 200, the handler returns the
  sanitized text as \<open>mermaid\<close>, the response body, whatever it is, as \<open>svg\<close>, and
  \<open>success\<close> true.
\<close>

theorem render_success:
  assumes "generate_content (build_prompt req) = Inr response"
    and "extract_text response = Inr (Some code)" and "code \<noteq> []"
    and "sanitize code = SanitizedDiagram mermaid_code"
    and "kroki mermaid_code = Inr kroki_response"
    and "status_code kroki_response = 200"
  shows "generate_roadmap req generate_content kroki =
    (Inr [(''mermaid'', JStr mermaid_code), (''svg'', JStr (kroki_text kroki_response)),
          (''success'', JBool True)], [mermaid_code])"
  using assms by (simp add: generate_roadmap_def handle_body_def render_result_def)

theorem render_success_witness:
  "generate_roadmap go_request (returning (text_response small_graph)) (kroki_with 200 [])
     = (Inr [(''mermaid'', JStr small_graph), (''svg'', JStr []), (''success'', JBool True)],
        [small_graph])"
proof -
  have e: "extract_text (text_response small_graph) = Inr (Some small_graph)"
    by (simp add: text_response_def extract_text_def strategy1_def)
  have n: "small_graph \<noteq> []" by (simp add: small_graph_def)
  have s: "sanitize small_graph = SanitizedDiagram small_graph"
    by (simp add: small_graph_def sanitize_defs)
  show ?thesis
    using render_success [of "returning (text_response small_graph)" go_request
        "text_response small_graph" small_graph small_graph "kroki_with 200 []"
        "\<lparr>status_code = 200, kroki_text = []\<rparr>", OF _ e n s]
    by (simp add: returning_def kroki_with_def)
qed

text \<open>
  Claim C6: when the rendering service answers with another status, the handler returns the
  syntax-error message if the lower-cased body contains \<open>syntax\<close> and the generic
  message otherwise, with the sanitized text as \<open>mermaid\<close> and the first 300 characters
  of the body as \<open>details\<close>.
\<close>

theorem render_failure:
  assumes "generate_content (build_prompt req) = Inr response"
    and "extract_text response = Inr (Some code)" and "code \<noteq> []"
    and "sanitize code = SanitizedDiagram mermaid_code"
    and "kroki mermaid_code = Inr kroki_response"
    and "status_code kroki_response \<noteq> 200"
  shows "fst (generate_roadmap req generate_content kroki) =
    Inr [(''error'', JStr (if contains ''syntax'' (lower (kroki_text kroki_response))
                           then ''The generated diagram has syntax errors. Try a simpler request.''
                           else ''Diagram rendering failed'')),
         (''mermaid'', JStr mermaid_code),
         (''details'', JStr (take 300 (kroki_text kroki_response)))]"
  using assms by (simp add: generate_roadmap_def handle_body_def render_result_def)

theorem render_failure_witness:
  "fst (generate_roadmap go_request (returning (text_response small_graph))
          (kroki_with 400 ''Syntax error on line 2''))
     = Inr [(''error'', JStr ''The generated diagram has syntax errors. Try a simpler request.''),
            (''mermaid'', JStr small_graph), (''details'', JStr ''Syntax error on line 2'')]"
proof -
  have e: "extract_text (text_response small_graph) = Inr (Some small_graph)"
    by (simp add: text_response_def extract_text_def strategy1_def)
  have n: "small_graph \<noteq> []" by (simp add: small_graph_def)
  have s: "sanitize small_graph = SanitizedDiagram small_graph"
    by (simp add: small_graph_def sanitize_defs)
  have l: "lower ''Syntax error on line 2'' = ''syntax error on line 2''"
    by code_simp
  show ?thesis
    using render_failure [of "returning (text_response small_graph)" go_request
        "text_response small_graph" small_graph small_graph "kroki_with 400 ''Syntax error on line 2''"
        "\<lparr>status_code = 400, kroki_text = ''Syntax error on line 2''\<rparr>", OF _ e n s]
    by (simp add: returning_def kroki_with_def l)
qed

text \<open>
  Claim C9: two requests that agree on skill, speed and custom prompt get the same prompt,
  and so the same result from the same collaborators: the language field is not used.
\<close>

theorem prompt_ignores_language:
  assumes "skill r1 = skill r2" and "speed r1 = speed r2" and "custom_prompt r1 = custom_prompt r2"
  shows "build_prompt r1 = build_prompt r2 \<and>
         generate_roadmap r1 generate_content kroki = generate_roadmap r2 generate_content kroki"
  using assms by (simp add: build_prompt_def custom_context_def generate_roadmap_def)

theorem prompt_ignores_language_witness:
  "language go_request \<noteq> language (go_request\<lparr>language := ''Rust''\<rparr>)
   \<and> build_prompt go_request = build_prompt (go_request\<lparr>language := ''Rust''\<rparr>)
   \<and> generate_roadmap go_request (returning (text_response small_graph)) (kroki_with 200 ''<svg/>'')
     = generate_roadmap (go_request\<lparr>language := ''Rust''\<rparr>) (returning (text_response small_graph)) (kroki_with 200 ''<svg/>'')"
  using prompt_ignores_language [of go_request "go_request\<lparr>language := ''Rust''\<rparr>"
      "returning (text_response small_graph)" "kroki_with 200 ''<svg/>''"]
  by (simp add: go_request_def)




text \<open>
  Claim C7, as the code has it: when neither \<open>graph TD\<close> nor \<open>graph LR\<close> occurs in the
  trimmed text without fences, the sanitizer signals \<open>Invalid\<close> and the handler returns
  \<open>No valid graph found\<close> with the first 300 characters of the cleaned text as \<open>raw\<close>,
  without calling the rendering service.
\<close>

theorem no_graph_type_invalid:
  assumes "generate_content (build_prompt req) = Inr response"
    and "extract_text response = Inr (Some code)" and "code \<noteq> []"
    and "\<not> contains ''graph TD'' (strip_fences code)"
    and "\<not> contains ''graph LR'' (strip_fences code)"
  shows "sanitize code = Invalid (take 300 (clean code))
    \<and> generate_roadmap req generate_content kroki =
        (Inr [(''error'', JStr ''No valid graph found''), (''raw'', JStr (take 300 (clean code)))], [])"
proof -
  from assms(4,5) have "\<not> contains ''graph TD'' (clean code)" and "\<not> contains ''graph LR'' (clean code)"
    using graph_type_clean by blast+
  then have "sanitize code = Invalid (take 300 (clean code))" by (simp add: sanitize_def)
  with assms(1-3) show ?thesis by (simp add: generate_roadmap_def handle_body_def)
qed

theorem no_graph_type_invalid_witness:
  "sanitize ''Sorry: no [roadmap] today'' = Invalid ''Sorry - no [roadmap] today''
   \<and> generate_roadmap go_request (returning (text_response ''Sorry: no [roadmap] today''))
        (kroki_with 200 ''<svg/>'')
     = (Inr [(''error'', JStr ''No valid graph found''), (''raw'', JStr ''Sorry - no [roadmap] today'')], [])"
proof -
  have e: "extract_text (text_response ''Sorry: no [roadmap] today'')
      = Inr (Some ''Sorry: no [roadmap] today'')"
    by (simp add: text_response_def extract_text_def strategy1_def)
  have c: "clean ''Sorry: no [roadmap] today'' = ''Sorry - no [roadmap] today''"
    by (simp add: sanitize_defs)
  have f: "\<not> contains ''graph TD'' (strip_fences ''Sorry: no [roadmap] today'')"
    "\<not> contains ''graph LR'' (strip_fences ''Sorry: no [roadmap] today'')"
    by (simp_all add: sanitize_defs)
  show ?thesis
    using no_graph_type_invalid [of "returning (text_response ''Sorry: no [roadmap] today'')"
        go_request "text_response ''Sorry: no [roadmap] today''" "''Sorry: no [roadmap] today''"
        "kroki_with 200 ''<svg/>''", OF _ e _ f]
    by (simp add: returning_def c)
qed

text \<open>
  Claim C7 as stated fails: the gate looks for the graph type anywhere in the text, not at
  the start of a line.
\<close>

theorem graph_inside_line_counterexample:
  "filter (\<lambda>l. startswith (strip l) ''graph'') (split (strip_fences ''Use graph TD here'') nl) = []
   \<and> sanitize ''Use graph TD here'' = SanitizedDiagram ''Use graph TD here''
   \<and> generate_roadmap go_request (returning (text_response ''Use graph TD here''))
        (kroki_with 200 ''<svg/>'')
     = (Inr [(''mermaid'', JStr ''Use graph TD here''), (''svg'', JStr ''<svg/>''),
             (''success'', JBool True)], [''Use graph TD here''])"
  by (simp add: sanitize_defs generate_roadmap_def handle_body_def render_result_def
      returning_def kroki_with_def text_response_def extract_text_def strategy1_def)

end
